theory Spec2Isabelle
  imports Main "HOL-Library.Multiset" "HOL-Library.Extended_Nat" "HOL-Library.AList"
begin

section \<open>The Mastermind solving engine of \<^verbatim>\<open>mastermind.py\<close>\<close>

subsection \<open>Constants and data\<close>

text \<open>
  A symbol is a Python \<^verbatim>\<open>str\<close>, a code is a tuple of symbols, and a feedback is a pair of
  Python integers \<^verbatim>\<open>(correct_position, correct_color)\<close>.
\<close>

type_synonym code = "string list"
type_synonym feedback = "int \<times> int"

definition COLORS :: "string list" where
  "COLORS = [''Red'', ''Green'', ''Yellow'', ''Blue'', ''Purple'', ''Orange'']"

definition CODE_LENGTH :: int where
  "CODE_LENGTH = 4"

text \<open>
  The exceptions. \<open>ValueError\<close> is the only one a statement of the engine can raise
  (\<^verbatim>\<open>itertools\<close> and \<^verbatim>\<open>random.sample\<close> on a bad length, \<^verbatim>\<open>max\<close> on an empty sequence).
  The other three are the error names of the specification; no statement of the source
  raises them, and no definition below returns them.
\<close>

datatype error = ValueError | InvalidGuessError | InvalidConfigurationError | InconsistentStateError

subsection \<open>\<^verbatim>\<open>calculate_feedback\<close> (lines 13 to 42)\<close>

text \<open>
  \<^verbatim>\<open>sum(g == c for g, c in zip(guess, code))\<close> counts the equal pairs of the zip, which stops
  at the shorter tuple. \<^verbatim>\<open>set(guess)\<close> is iterated once per distinct symbol; the order of the
  iteration does not matter to the sum, and \<open>remdups\<close> fixes one.
\<close>

definition calculate_feedback :: "code \<Rightarrow> code \<Rightarrow> feedback" where
  "calculate_feedback guess code =
     (let correct_position = sum_list (map (\<lambda>(g, c). if g = c then 1 else 0) (zip guess code));
          correct_color =
            sum_list (map (\<lambda>color. min (int (count_list guess color)) (int (count_list code color)))
                          (remdups guess))
            - correct_position
      in (correct_position, correct_color))"

text \<open>
  The evaluator in the words of the specification, for comparison with the code:
  \<open>spec_exact\<close> is the number of index positions where both codes hold the same symbol,
  \<open>spec_overlap\<close> the sum over the distinct symbols of the guess of the smaller of the two
  counts.
\<close>

definition spec_exact :: "code \<Rightarrow> code \<Rightarrow> int" where
  "spec_exact guess code = int (length [i \<leftarrow> [0..<length guess]. guess ! i = code ! i])"

definition spec_overlap :: "code \<Rightarrow> code \<Rightarrow> int" where
  "spec_overlap guess code = (\<Sum>s\<in>set guess. min (int (count_list guess s)) (int (count_list code s)))"

definition spec_score :: "code \<Rightarrow> code \<Rightarrow> feedback" where
  "spec_score guess code = (spec_exact guess code, spec_overlap guess code - spec_exact guess code)"

text \<open>The symbols of the matching positions, in order (a proof device).\<close>

definition matched :: "'a list \<Rightarrow> 'a list \<Rightarrow> 'a list" where
  "matched a b = map fst (filter (\<lambda>(g, c). g = c) (zip a b))"

subsection \<open>The code space: \<^verbatim>\<open>itertools.product\<close> and \<^verbatim>\<open>itertools.permutations\<close>\<close>

text \<open>
  Both iterators emit their tuples in lexicographic order of the positions of the input,
  the first component changing slowest, and both raise \<^verbatim>\<open>ValueError\<close> for a negative count.
  \<^verbatim>\<open>permutations\<close> chooses by position, so it yields nothing when \<open>r\<close> exceeds the length.
\<close>

fun product_repeat :: "'a list \<Rightarrow> nat \<Rightarrow> 'a list list" where
  "product_repeat xs 0 = [[]]"
| "product_repeat xs (Suc n) = concat (map (\<lambda>x. map ((#) x) (product_repeat xs n)) xs)"

fun permutations_of :: "'a list \<Rightarrow> nat \<Rightarrow> 'a list list" where
  "permutations_of xs 0 = [[]]"
| "permutations_of xs (Suc r) =
     concat (map (\<lambda>i. map ((#) (xs ! i)) (permutations_of (take i xs @ drop (Suc i) xs) r))
                 [0..<length xs])"

definition itertools_product :: "'a list \<Rightarrow> int \<Rightarrow> error + 'a list list" where
  "itertools_product xs repeat =
     (if repeat < 0 then Inl ValueError else Inr (product_repeat xs (nat repeat)))"

definition itertools_permutations :: "'a list \<Rightarrow> int \<Rightarrow> error + 'a list list" where
  "itertools_permutations xs r =
     (if r < 0 then Inl ValueError else Inr (permutations_of xs (nat r)))"

subsection \<open>\<^verbatim>\<open>random.sample\<close>\<close>

text \<open>
  \<^verbatim>\<open>random.sample(population, k)\<close> raises \<^verbatim>\<open>ValueError\<close> unless \<open>0 \<le> k \<le> n\<close> and then
  selects without replacement: for \<open>i = 0, \<dots>, k - 1\<close> it draws \<open>j\<close> below \<open>n - i\<close>, takes
  \<open>pool[j]\<close> and moves \<open>pool[n - i - 1]\<close> into slot \<open>j\<close>. The random source is the parameter
  \<open>rnd\<close>: the \<open>i\<close>-th draw is \<open>rnd i\<close> reduced below its bound.
\<close>

fun sample_loop :: "(nat \<Rightarrow> nat) \<Rightarrow> nat \<Rightarrow> nat \<Rightarrow> 'a list \<Rightarrow> 'a list" where
  "sample_loop rnd i 0 pool = []"
| "sample_loop rnd i (Suc r) pool =
     (let n = length pool;
          j = rnd i mod (n - i)
      in pool ! j # sample_loop rnd (Suc i) r (pool[j := pool ! (n - i - 1)]))"

definition random_sample :: "(nat \<Rightarrow> nat) \<Rightarrow> 'a list \<Rightarrow> int \<Rightarrow> error + 'a list" where
  "random_sample rnd population k =
     (if \<not> (0 \<le> k \<and> k \<le> int (length population)) then Inl ValueError
      else Inr (sample_loop rnd 0 (nat k) population))"

subsection \<open>The session: class \<^verbatim>\<open>MastermindGame\<close>\<close>

record MastermindGame =
  allow_duplicates :: bool
  code_length :: int
  all_codes :: "code list"
  secret_code :: code
  possible_codes :: "code list"
  guesses :: "code list"
  feedbacks :: "feedback list"

text \<open>
  \<^verbatim>\<open>__init__\<close> (lines 70 to 90): the code space is built first, then the secret is sampled
  from \<^verbatim>\<open>COLORS\<close>, whatever \<^verbatim>\<open>allow_duplicates\<close> says. An exception of either step leaves no
  session behind.
\<close>

definition MastermindGame_init :: "(nat \<Rightarrow> nat) \<Rightarrow> bool \<Rightarrow> int \<Rightarrow> error + MastermindGame" where
  "MastermindGame_init rnd allow_dup len =
     (case (if allow_dup then itertools_product COLORS len else itertools_permutations COLORS len) of
        Inl e \<Rightarrow> Inl e
      | Inr codes \<Rightarrow>
          (case random_sample rnd COLORS len of
             Inl e \<Rightarrow> Inl e
           | Inr secret \<Rightarrow>
               Inr \<lparr> allow_duplicates = allow_dup, code_length = len, all_codes = codes,
                     secret_code = secret, possible_codes = codes, guesses = [], feedbacks = [] \<rparr>))"

text \<open>
  \<^verbatim>\<open>play_turn\<close> (lines 92 to 113) has no check of the guess and no \<^verbatim>\<open>raise\<close>: it scores the
  guess against the secret, appends to both histories, and either returns \<^verbatim>\<open>True\<close> or
  replaces \<^verbatim>\<open>possible_codes\<close> by the list comprehension of line 112 and returns \<^verbatim>\<open>False\<close>.
\<close>

definition filter_codes :: "code list \<Rightarrow> code \<Rightarrow> feedback \<Rightarrow> code list" where
  "filter_codes codes guess feedback = [code \<leftarrow> codes. calculate_feedback guess code = feedback]"

definition play_turn :: "MastermindGame \<Rightarrow> code \<Rightarrow> bool \<times> MastermindGame" where
  "play_turn self guess =
     (let feedback = calculate_feedback guess (secret_code self);
          self1 = self\<lparr>guesses := guesses self @ [guess]\<rparr>;
          self2 = self1\<lparr>feedbacks := feedbacks self1 @ [feedback]\<rparr>
      in if feedback = (code_length self2, 0) then (True, self2)
         else (False, self2\<lparr>possible_codes := filter_codes (possible_codes self2) guess feedback\<rparr>))"

text \<open>Playing a list of guesses in turn, whatever each turn returns.\<close>

fun play_turns :: "MastermindGame \<Rightarrow> code list \<Rightarrow> MastermindGame" where
  "play_turns self [] = self"
| "play_turns self (guess # rest) = play_turns (snd (play_turn self guess)) rest"

text \<open>
  \<^verbatim>\<open>_minimax_guess\<close> (lines 128 to 165). The dictionary \<^verbatim>\<open>feedback_counts\<close> is an association
  list in insertion order; \<^verbatim>\<open>max\<close> of no values raises \<^verbatim>\<open>ValueError\<close>; the running minimum
  starts at \<^verbatim>\<open>float('inf')\<close>, which is \<open>\<infinity>\<close> here, and \<^verbatim>\<open>best_guess\<close> starts at \<^verbatim>\<open>None\<close>.
\<close>

definition count_feedback :: "code \<Rightarrow> code \<Rightarrow> (feedback \<times> nat) list \<Rightarrow> (feedback \<times> nat) list" where
  "count_feedback guess code feedback_counts =
     (let feedback = calculate_feedback guess code
      in AList.update feedback
           ((case map_of feedback_counts feedback of None \<Rightarrow> 0 | Some n \<Rightarrow> n) + 1)
           feedback_counts)"

definition feedback_counts_of :: "code \<Rightarrow> code list \<Rightarrow> (feedback \<times> nat) list" where
  "feedback_counts_of guess codes = fold (count_feedback guess) codes []"

fun py_max :: "nat list \<Rightarrow> error + nat" where
  "py_max [] = Inl ValueError"
| "py_max (x # xs) = Inr (fold max xs x)"

fun minimax_loop :: "code list \<Rightarrow> code list \<Rightarrow> code option \<times> enat \<Rightarrow> error + (code option \<times> enat)" where
  "minimax_loop possible [] acc = Inr acc"
| "minimax_loop possible (guess # rest) (best_guess, min_max_eliminations) =
     (case py_max (map snd (feedback_counts_of guess possible)) of
        Inl e \<Rightarrow> Inl e
      | Inr max_eliminations \<Rightarrow>
          if enat max_eliminations < min_max_eliminations
          then minimax_loop possible rest (Some guess, enat max_eliminations)
          else minimax_loop possible rest (best_guess, min_max_eliminations))"

definition minimax_guess :: "MastermindGame \<Rightarrow> error + code option" where
  "minimax_guess self =
     (case minimax_loop (possible_codes self) (all_codes self) (None, \<infinity>) of
        Inl e \<Rightarrow> Inl e
      | Inr (best_guess, _) \<Rightarrow> Inr best_guess)"

text \<open>\<^verbatim>\<open>next_guess\<close> (lines 115 to 126).\<close>

definition next_guess :: "MastermindGame \<Rightarrow> error + code option" where
  "next_guess self =
     (if length (possible_codes self) = 1 then Inr (Some (possible_codes self ! 0))
      else minimax_guess self)"

text \<open>
  The selector's measure in the words of the specification: the candidates are partitioned
  by their score against \<open>g\<close>, and \<open>spec_worst\<close> is the size of the largest part.
\<close>

definition partition_size :: "code list \<Rightarrow> code \<Rightarrow> feedback \<Rightarrow> nat" where
  "partition_size candidates g fb = length [c \<leftarrow> candidates. calculate_feedback g c = fb]"

definition spec_worst :: "code list \<Rightarrow> code \<Rightarrow> nat" where
  "spec_worst candidates g =
     Max (set (map (\<lambda>c. partition_size candidates g (calculate_feedback g c)) candidates))"

text \<open>
  The validity of a guess in the words of the specification: the length is the session's,
  every symbol is of the alphabet, and the duplicate policy is respected.
\<close>

definition spec_valid_guess :: "MastermindGame \<Rightarrow> code \<Rightarrow> bool" where
  "spec_valid_guess self guess \<longleftrightarrow>
     int (length guess) = code_length self \<and> set guess \<subseteq> set COLORS \<and>
     (allow_duplicates self \<or> distinct guess)"

subsection \<open>A concrete session\<close>

text \<open>
  The random source whose every draw is \<open>0\<close>, and the session that
  \<^verbatim>\<open>MastermindGame(True, 4)\<close> builds from it: \<^verbatim>\<open>random.sample\<close> then takes Red, Orange,
  Purple and Blue, in this order.
\<close>

definition first_draws :: "nat \<Rightarrow> nat" where
  "first_draws i = 0"

definition example_game :: MastermindGame where
  "example_game =
     \<lparr> allow_duplicates = True, code_length = 4, all_codes = product_repeat COLORS 4,
       secret_code = [''Red'', ''Orange'', ''Purple'', ''Blue''],
       possible_codes = product_repeat COLORS 4, guesses = [], feedbacks = [] \<rparr>"

text \<open>Two later states of that session: with one candidate left, and with two.\<close>

definition one_left :: MastermindGame where
  "one_left = example_game\<lparr>possible_codes := [[''Red'', ''Orange'', ''Purple'', ''Blue'']]\<rparr>"

definition two_left :: MastermindGame where
  "two_left = example_game\<lparr>possible_codes :=
     [[''Red'', ''Orange'', ''Purple'', ''Blue''], [''Red'', ''Orange'', ''Blue'', ''Purple'']]\<rparr>"

section \<open>The feedback evaluator\<close>

lemma exact_matched:
  "sum_list (map (\<lambda>(g, c). if g = c then 1 else 0) (zip a b)) = int (length (matched a b))"
  unfolding matched_def by (induction a arbitrary: b) (auto split: list.splits simp: zip_Cons1)

lemma matched_sub_left: "mset (matched a b) \<subseteq># mset a"
  unfolding matched_def
proof (induction a arbitrary: b)
  case Nil
  show ?case by simp
next
  case (Cons x a)
  show ?case
  proof (cases b)
    case Nil
    then show ?thesis by simp
  next
    case (Cons y b')
    have "mset (map fst (filter (\<lambda>(g, c). g = c) (zip a b'))) \<subseteq># mset a" by (rule Cons.IH)
    then show ?thesis using Cons by (auto intro: subset_mset.order_trans)
  qed
qed

lemma matched_commute: "matched a b = matched b a"
  unfolding matched_def
proof (induction a arbitrary: b)
  case Nil
  show ?case by simp
next
  case (Cons x a)
  show ?case by (cases b) (auto simp: Cons.IH)
qed

lemma overlap_sum_set:
  "sum_list (map (\<lambda>color. min (int (count_list a color)) (int (count_list b color))) (remdups a))
   = (\<Sum>s\<in>set a. min (int (count_list a s)) (int (count_list b s)))"
  using sum_list_distinct_conv_sum_set[of "remdups a"] by simp

lemma overlap_size:
  "(\<Sum>s\<in>set a. min (int (count_list a s)) (int (count_list b s))) = int (size (mset a \<inter># mset b))"
proof -
  have "(\<Sum>s\<in>set a. min (int (count_list a s)) (int (count_list b s)))
      = (\<Sum>s\<in>set a \<inter> set b. min (int (count_list a s)) (int (count_list b s)))"
    by (rule sum.mono_neutral_right) auto
  also have "\<dots> = int (size (mset a \<inter># mset b))"
    by (simp add: size_multiset_overloaded_eq count_mset of_nat_min)
  finally show ?thesis .
qed

lemma feedback_alt:
  "calculate_feedback a b =
     (int (length (matched a b)), int (size (mset a \<inter># mset b)) - int (length (matched a b)))"
  by (simp add: calculate_feedback_def Let_def exact_matched overlap_sum_set overlap_size)

lemma feedback_commute: "calculate_feedback a b = calculate_feedback b a"
  by (simp add: feedback_alt matched_commute[of a b] multiset_inter_commute[of "mset a"])

lemma matched_le_overlap: "length (matched a b) \<le> size (mset a \<inter># mset b)"
proof -
  have "mset (matched a b) \<subseteq># mset a" by (rule matched_sub_left)
  moreover have "mset (matched a b) \<subseteq># mset b"
    using matched_sub_left[of b a] by (simp add: matched_commute[of a b])
  ultimately have "mset (matched a b) \<subseteq># mset a \<inter># mset b" by simp
  then have "size (mset (matched a b)) \<le> size (mset a \<inter># mset b)" by (rule size_mset_mono)
  then show ?thesis by simp
qed

lemma overlap_le_length: "size (mset a \<inter># mset b) \<le> length a"
proof -
  have "size (mset a \<inter># mset b) \<le> size (mset a)" by (rule size_mset_mono) simp
  then show ?thesis by simp
qed

lemma matched_positions:
  assumes "length a = length b"
  shows "length (matched a b) = length [i \<leftarrow> [0..<length a]. a ! i = b ! i]"
proof -
  have "length (matched a b) = card {i. i < length (zip a b) \<and> (\<lambda>(g, c). g = c) (zip a b ! i)}"
    unfolding matched_def by (simp add: length_filter_conv_card)
  also have "{i. i < length (zip a b) \<and> (\<lambda>(g, c). g = c) (zip a b ! i)}
           = {i. i < length a \<and> a ! i = b ! i}"
    using assms by auto
  also have "\<dots> = set [i \<leftarrow> [0..<length a]. a ! i = b ! i]"
    by auto
  also have "card \<dots> = length [i \<leftarrow> [0..<length a]. a ! i = b ! i]"
    by (rule distinct_card) simp
  finally show ?thesis .
qed

text \<open>
  C2: for codes of equal length the evaluator returns, as \<open>exact\<close>, the number of positions
  where the two codes hold the same symbol and, as \<open>colorOnly\<close>, the sum over the distinct
  symbols of the guess of the smaller count, minus \<open>exact\<close>; and the score of
  (Red, Red, Green, Green) against (Red, Green, Yellow, Blue) is (1, 1).
\<close>

theorem calculate_feedback_refines_spec:
  "(length guess = length code \<longrightarrow> calculate_feedback guess code = spec_score guess code) \<and>
   calculate_feedback [''Red'', ''Red'', ''Green'', ''Green'']
                      [''Red'', ''Green'', ''Yellow'', ''Blue''] = (1, 1)"
proof
  show "length guess = length code \<longrightarrow> calculate_feedback guess code = spec_score guess code"
  proof
    assume len: "length guess = length code"
    show "calculate_feedback guess code = spec_score guess code"
      by (simp add: feedback_alt spec_score_def spec_exact_def spec_overlap_def overlap_size
                    matched_positions[OF len])
  qed
next
  show "calculate_feedback [''Red'', ''Red'', ''Green'', ''Green'']
                           [''Red'', ''Green'', ''Yellow'', ''Blue''] = (1, 1)"
    by (simp add: calculate_feedback_def)
qed

theorem calculate_feedback_refines_spec_witness:
  "length [''Red'', ''Green'', ''Green'', ''Blue''] = length [''Red'', ''Red'', ''Green'', ''Yellow''] \<and>
   calculate_feedback [''Red'', ''Green'', ''Green'', ''Blue''] [''Red'', ''Red'', ''Green'', ''Yellow'']
     = spec_score [''Red'', ''Green'', ''Green'', ''Blue''] [''Red'', ''Red'', ''Green'', ''Yellow''] \<and>
   spec_score [''Red'', ''Green'', ''Green'', ''Blue''] [''Red'', ''Red'', ''Green'', ''Yellow''] = (2, 0)"
  using calculate_feedback_refines_spec
          [of "[''Red'', ''Green'', ''Green'', ''Blue'']" "[''Red'', ''Red'', ''Green'', ''Yellow'']"]
  by (simp add: calculate_feedback_def)

text \<open>
  C8: the evaluator is symmetric: for codes \<open>a\<close> and \<open>b\<close> of equal length, the score of \<open>a\<close>
  against \<open>b\<close> is the score of \<open>b\<close> against \<open>a\<close>, although only the distinct symbols of the
  first argument are traversed.
\<close>

theorem calculate_feedback_symmetric:
  "length a = length b \<Longrightarrow> calculate_feedback a b = calculate_feedback b a"
  by (rule feedback_commute)

theorem calculate_feedback_symmetric_witness:
  "length [''Red'', ''Red'', ''Green'', ''Green''] = length [''Red'', ''Green'', ''Yellow'', ''Blue''] \<and>
   calculate_feedback [''Red'', ''Red'', ''Green'', ''Green''] [''Red'', ''Green'', ''Yellow'', ''Blue'']
     = calculate_feedback [''Red'', ''Green'', ''Yellow'', ''Blue''] [''Red'', ''Red'', ''Green'', ''Green'']"
  using calculate_feedback_symmetric
          [of "[''Red'', ''Red'', ''Green'', ''Green'']" "[''Red'', ''Green'', ''Yellow'', ''Blue'']"]
  by simp

text \<open>
  C9: for codes of equal length \<open>L\<close> the feedback satisfies \<open>0 \<le> exact \<le> L\<close>,
  \<open>colorOnly \<ge> 0\<close> and \<open>exact + colorOnly \<le> L\<close>.
\<close>

theorem calculate_feedback_bounds:
  assumes "length guess = length code"
      and "calculate_feedback guess code = (exact, colorOnly)"
  shows "0 \<le> exact \<and> exact \<le> int (length guess) \<and> 0 \<le> colorOnly \<and>
         exact + colorOnly \<le> int (length guess)"
proof -
  have e: "exact = int (length (matched guess code))"
   and c: "colorOnly = int (size (mset guess \<inter># mset code)) - int (length (matched guess code))"
    using assms(2) by (simp_all add: feedback_alt)
  have m: "length (matched guess code) \<le> size (mset guess \<inter># mset code)"
    by (rule matched_le_overlap)
  have l: "size (mset guess \<inter># mset code) \<le> length guess"
    by (rule overlap_le_length)
  show ?thesis using e c m l by linarith
qed

theorem calculate_feedback_bounds_witness:
  "length [''Red'', ''Red'', ''Green'', ''Green''] = length [''Red'', ''Green'', ''Yellow'', ''Blue''] \<and>
   calculate_feedback [''Red'', ''Red'', ''Green'', ''Green''] [''Red'', ''Green'', ''Yellow'', ''Blue'']
     = (1, 1) \<and>
   (0::int) \<le> 1 \<and> (1::int) \<le> int (length [''Red'', ''Red'', ''Green'', ''Green'']) \<and> (0::int) \<le> 1 \<and>
   (1::int) + 1 \<le> int (length [''Red'', ''Red'', ''Green'', ''Green''])"
  using calculate_feedback_bounds
          [of "[''Red'', ''Red'', ''Green'', ''Green'']" "[''Red'', ''Green'', ''Yellow'', ''Blue'']" 1 1]
  by (simp add: calculate_feedback_def)

section \<open>The session: frame lemmas of \<^verbatim>\<open>play_turn\<close>\<close>

lemma play_turn_secret [simp]: "secret_code (snd (play_turn self guess)) = secret_code self"
  by (simp add: play_turn_def Let_def)

lemma play_turn_all_codes [simp]: "all_codes (snd (play_turn self guess)) = all_codes self"
  by (simp add: play_turn_def Let_def)

lemma play_turn_guesses: "guesses (snd (play_turn self guess)) = guesses self @ [guess]"
  by (simp add: play_turn_def Let_def)

lemma play_turn_feedbacks:
  "feedbacks (snd (play_turn self guess)) = feedbacks self @ [calculate_feedback guess (secret_code self)]"
  by (simp add: play_turn_def Let_def)

lemma play_turn_possible:
  "possible_codes (snd (play_turn self guess)) =
     (if calculate_feedback guess (secret_code self) = (code_length self, 0) then possible_codes self
      else filter_codes (possible_codes self) guess (calculate_feedback guess (secret_code self)))"
  by (simp add: play_turn_def Let_def)

lemma filter_codes_retains:
  "s \<in> set candidates \<Longrightarrow> s \<in> set (filter_codes candidates g (calculate_feedback g s))"
  by (simp add: filter_codes_def)

lemma play_turn_retains:
  "secret_code self \<in> set (possible_codes self) \<Longrightarrow>
   secret_code self \<in> set (possible_codes (snd (play_turn self guess)))"
  by (simp add: play_turn_possible filter_codes_retains)

lemma play_turns_secret [simp]: "secret_code (play_turns self gs) = secret_code self"
  by (induction gs arbitrary: self) simp_all

lemma play_turns_retains:
  "secret_code self \<in> set (possible_codes self) \<Longrightarrow>
   secret_code self \<in> set (possible_codes (play_turns self gs))"
proof (induction gs arbitrary: self)
  case Nil
  then show ?case by simp
next
  case (Cons g gs)
  have "secret_code (snd (play_turn self g)) \<in> set (possible_codes (snd (play_turn self g)))"
    using Cons.prems by (simp add: play_turn_retains)
  from Cons.IH[OF this] show ?case by simp
qed

section \<open>Sampling and the code space\<close>

lemma swap_last_step:
  assumes jm: "j < m" and mle: "m \<le> length pool" and dm: "distinct (take m pool)"
  shows "distinct (take (m - 1) (pool[j := pool ! (m - 1)])) \<and>
         set (take (m - 1) (pool[j := pool ! (m - 1)])) = set (take m pool) - {pool ! j}"
proof -
  define A where "A = take (m - 1) pool"
  define v where "v = pool ! (m - 1)"
  have mpos: "0 < m" using jm by simp
  have m1: "m - 1 < length pool" using mpos mle by simp
  have "take (Suc (m - 1)) pool = take (m - 1) pool @ [pool ! (m - 1)]"
    using m1 by (rule take_Suc_conv_app_nth)
  then have split: "take m pool = A @ [v]" using mpos by (simp add: A_def v_def)
  have dA: "distinct A" and vA: "v \<notin> set A" using dm split by simp_all
  have lA: "length A = m - 1" using m1 by (simp add: A_def)
  show ?thesis
  proof (cases "j < m - 1")
    case True
    have tk: "take (m - 1) (pool[j := v]) = A[j := v]"
      by (simp add: A_def take_update_swap)
    have pj: "pool ! j = A ! j" using True by (simp add: A_def)
    have Aj: "A ! j \<in> set A" using True lA by simp
    have s: "set (A[j := v]) = insert v (set A - {A ! j})"
      using dA True lA by (simp add: set_update_distinct)
    have d: "distinct (A[j := v])"
      using dA vA by (simp add: distinct_list_update)
    have "set (A @ [v]) - {A ! j} = insert v (set A - {A ! j})"
      using vA Aj by auto
    then show ?thesis using tk s d split pj by (simp add: v_def)
  next
    case False
    then have jeq: "j = m - 1" using jm by simp
    have tk: "take (m - 1) (pool[j := v]) = A"
      by (simp add: A_def jeq)
    have "set (A @ [v]) - {v} = set A" using vA by auto
    moreover have "pool ! j = v" by (simp add: v_def jeq)
    ultimately show ?thesis using tk dA split by (simp add: v_def)
  qed
qed

lemma sample_loop_props:
  "i + r \<le> length pool \<Longrightarrow> distinct (take (length pool - i) pool) \<Longrightarrow>
   distinct (sample_loop rnd i r pool) \<and> set (sample_loop rnd i r pool) \<subseteq> set (take (length pool - i) pool)
   \<and> length (sample_loop rnd i r pool) = r"
proof (induction r arbitrary: i pool)
  case 0
  show ?case by simp
next
  case (Suc r)
  define m where "m = length pool - i"
  define j where "j = rnd i mod m"
  define pool' where "pool' = pool[j := pool ! (m - 1)]"
  have mpos: "0 < m" and mle: "m \<le> length pool" using Suc.prems(1) by (simp_all add: m_def)
  have jm: "j < m" using mpos by (simp add: j_def)
  have len': "length pool' = length pool" by (simp add: pool'_def)
  have m1: "length pool' - Suc i = m - 1" by (simp add: len' m_def)
  have dm: "distinct (take m pool)" using Suc.prems(2) by (simp add: m_def)
  have step: "distinct (take (m - 1) pool') \<and> set (take (m - 1) pool') = set (take m pool) - {pool ! j}"
    unfolding pool'_def using jm mle dm by (rule swap_last_step)
  have pre1: "Suc i + r \<le> length pool'" using Suc.prems(1) by (simp add: len')
  have pre2: "distinct (take (length pool' - Suc i) pool')" using step by (simp add: m1)
  have ih: "distinct (sample_loop rnd (Suc i) r pool') \<and>
        set (sample_loop rnd (Suc i) r pool') \<subseteq> set (take (length pool' - Suc i) pool') \<and>
        length (sample_loop rnd (Suc i) r pool') = r"
    using pre1 pre2 by (rule Suc.IH)
  have pj_in: "pool ! j \<in> set (take m pool)" using jm mle by (auto simp: in_set_conv_nth)
  have unf: "sample_loop rnd i (Suc r) pool = pool ! j # sample_loop rnd (Suc i) r pool'"
    by (simp add: Let_def j_def m_def pool'_def)
  have sub: "set (sample_loop rnd (Suc i) r pool') \<subseteq> set (take m pool) - {pool ! j}"
    using ih step by (simp add: m1)
  have "distinct (pool ! j # sample_loop rnd (Suc i) r pool')" using ih sub by auto
  moreover have "set (pool ! j # sample_loop rnd (Suc i) r pool') \<subseteq> set (take m pool)"
    using sub pj_in by auto
  moreover have "length (pool ! j # sample_loop rnd (Suc i) r pool') = Suc r" using ih by simp
  ultimately show ?case unfolding unf m_def by blast
qed

lemma random_sample_props:
  assumes "distinct population" and "random_sample rnd population k = Inr s"
  shows "distinct s \<and> set s \<subseteq> set population \<and> int (length s) = k"
proof -
  have k: "0 \<le> k" "k \<le> int (length population)" and s: "s = sample_loop rnd 0 (nat k) population"
    using assms(2) by (auto simp: random_sample_def split: if_splits)
  have "distinct (sample_loop rnd 0 (nat k) population) \<and>
        set (sample_loop rnd 0 (nat k) population) \<subseteq> set (take (length population - 0) population) \<and>
        length (sample_loop rnd 0 (nat k) population) = nat k"
    apply (rule sample_loop_props) using k assms(1) by simp_all
  then show ?thesis using s k by simp
qed

lemma set_product_repeat: "set (product_repeat xs n) = {ys. length ys = n \<and> set ys \<subseteq> set xs}"
proof (induction n)
  case 0
  show ?case by auto
next
  case (Suc n)
  show ?case
  proof (rule set_eqI)
    fix ys
    show "ys \<in> set (product_repeat xs (Suc n)) \<longleftrightarrow> ys \<in> {ys. length ys = Suc n \<and> set ys \<subseteq> set xs}"
      by (cases ys) (auto simp: Suc.IH)
  qed
qed

lemma permutations_of_complete:
  "distinct xs \<Longrightarrow> distinct ys \<Longrightarrow> set ys \<subseteq> set xs \<Longrightarrow> length ys = r \<Longrightarrow> ys \<in> set (permutations_of xs r)"
proof (induction r arbitrary: xs ys)
  case 0
  then show ?case by simp
next
  case (Suc r)
  from Suc.prems(4) obtain y ys' where ys: "ys = y # ys'" by (cases ys) auto
  have "y \<in> set xs" using Suc.prems(3) ys by simp
  then obtain i where i: "i < length xs" "xs ! i = y" by (auto simp: in_set_conv_nth)
  define rest where "rest = take i xs @ drop (Suc i) xs"
  have xs: "xs = take i xs @ y # drop (Suc i) xs" using id_take_nth_drop[OF i(1)] i(2) by simp
  have d: "distinct (take i xs @ y # drop (Suc i) xs)" using Suc.prems(1) xs by simp
  have drest: "distinct rest" using d by (simp add: rest_def)
  have srest: "set rest = set xs - {y}"
  proof -
    have "set xs = set (take i xs @ y # drop (Suc i) xs)" using xs by simp
    then show ?thesis using d by (auto simp: rest_def)
  qed
  have "set ys' \<subseteq> set rest" using Suc.prems(2,3) ys srest by auto
  moreover have "distinct ys'" using Suc.prems(2) ys by simp
  moreover have "length ys' = r" using Suc.prems(4) ys by simp
  ultimately have "ys' \<in> set (permutations_of rest r)" using drest Suc.IH by blast
  then show ?case using i ys unfolding rest_def by auto
qed

section \<open>Construction and the turns of a session\<close>

lemma distinct_COLORS: "distinct COLORS"
  by (simp add: COLORS_def)

lemma length_COLORS: "length COLORS = 6"
  by (simp add: COLORS_def)

lemma init_Inr:
  assumes "MastermindGame_init rnd allow_dup len = Inr game"
  shows "\<exists>codes secret.
           (if allow_dup then itertools_product COLORS len else itertools_permutations COLORS len) = Inr codes \<and>
           random_sample rnd COLORS len = Inr secret \<and>
           game = \<lparr> allow_duplicates = allow_dup, code_length = len, all_codes = codes,
                    secret_code = secret, possible_codes = codes, guesses = [], feedbacks = [] \<rparr>"
  using assms unfolding MastermindGame_init_def by (auto split: sum.splits)

lemma init_invariant:
  assumes "MastermindGame_init rnd allow_dup len = Inr game"
  shows "secret_code game \<in> set (possible_codes game) \<and> possible_codes game = all_codes game \<and>
         distinct (secret_code game) \<and> int (length (secret_code game)) = len"
proof -
  from init_Inr[OF assms] obtain codes secret where
    c: "(if allow_dup then itertools_product COLORS len else itertools_permutations COLORS len) = Inr codes"
    and s: "random_sample rnd COLORS len = Inr secret"
    and g: "game = \<lparr> allow_duplicates = allow_dup, code_length = len, all_codes = codes,
                    secret_code = secret, possible_codes = codes, guesses = [], feedbacks = [] \<rparr>"
    by blast
  have p: "distinct secret \<and> set secret \<subseteq> set COLORS \<and> int (length secret) = len"
    using distinct_COLORS s by (rule random_sample_props)
  then have l: "length secret = nat len" by auto
  have "secret \<in> set codes"
  proof (cases allow_dup)
    case True
    then have "codes = product_repeat COLORS (nat len)"
      using c by (auto simp: itertools_product_def split: if_splits)
    then show ?thesis using p l by (simp add: set_product_repeat)
  next
    case False
    then have "codes = permutations_of COLORS (nat len)"
      using c by (auto simp: itertools_permutations_def split: if_splits)
    then show ?thesis using p l permutations_of_complete[OF distinct_COLORS, of secret "nat len"] by simp
  qed
  then show ?thesis using g p by simp
qed

lemma sample_first_draws:
  "random_sample first_draws COLORS 4 = Inr [''Red'', ''Orange'', ''Purple'', ''Blue'']"
  by (simp add: random_sample_def COLORS_def first_draws_def eval_nat_numeral Let_def)

lemma init_example: "MastermindGame_init first_draws True 4 = Inr example_game"
  unfolding MastermindGame_init_def example_game_def
  by (simp add: sample_first_draws itertools_product_def)

lemma init_too_long:
  "int (length COLORS) < len \<Longrightarrow> MastermindGame_init rnd allow_dup len = Inl ValueError"
  by (simp add: MastermindGame_init_def itertools_product_def itertools_permutations_def random_sample_def)

text \<open>
  C3: secret retention. A secret that is among the candidates is among the candidates that
  the filter keeps for any guess and the truthful feedback of that guess against the secret;
  so the secret of a session stays in \<open>possible_codes\<close> through any sequence of turns, and it
  is there from the start in every session that the constructor builds.
\<close>

theorem secret_retention:
  "(s \<in> set candidates \<longrightarrow> s \<in> set (filter_codes candidates g (calculate_feedback g s))) \<and>
   (secret_code self \<in> set (possible_codes self) \<longrightarrow>
      secret_code self \<in> set (possible_codes (play_turns self gs))) \<and>
   (MastermindGame_init rnd allow_dup len = Inr game \<longrightarrow>
      secret_code game \<in> set (possible_codes (play_turns game gs)))"
  using filter_codes_retains play_turns_retains init_invariant by blast

theorem secret_retention_witness:
  "[''Red''] \<in> set [[''Red''], [''Green'']] \<and>
   [''Red''] \<in> set (filter_codes [[''Red''], [''Green'']] [''Green''] (calculate_feedback [''Green''] [''Red''])) \<and>
   secret_code example_game \<in> set (possible_codes example_game) \<and>
   MastermindGame_init first_draws True 4 = Inr example_game \<and>
   secret_code example_game
     \<in> set (possible_codes (play_turns example_game [[''Red'', ''Red'', ''Green'', ''Green'']]))"
proof -
  have h: "secret_code example_game \<in> set (possible_codes example_game)"
    by (simp add: example_game_def set_product_repeat COLORS_def)
  show ?thesis
    using secret_retention[of "[''Red'']" "[[''Red''], [''Green'']]" "[''Green'']" example_game
                              "[[''Red'', ''Red'', ''Green'', ''Green'']]" first_draws True 4 example_game]
          h init_example
    by simp
qed

text \<open>
  C10: on a solving turn, when the feedback is \<open>(code_length, 0)\<close>, \<^verbatim>\<open>play_turn\<close> returns
  \<^verbatim>\<open>True\<close> with the guess and the feedback appended to the history and with
  \<open>possible_codes\<close> unchanged; on every other turn it returns \<^verbatim>\<open>False\<close> and \<open>possible_codes\<close>
  is the filtered list.
\<close>

theorem solving_turn_skips_filter:
  "(calculate_feedback guess (secret_code self) = (code_length self, 0) \<longrightarrow>
      play_turn self guess =
        (True, self\<lparr>guesses := guesses self @ [guess],
                    feedbacks := feedbacks self @ [(code_length self, 0)]\<rparr>) \<and>
      possible_codes (snd (play_turn self guess)) = possible_codes self) \<and>
   (calculate_feedback guess (secret_code self) \<noteq> (code_length self, 0) \<longrightarrow>
      fst (play_turn self guess) = False \<and>
      possible_codes (snd (play_turn self guess)) =
        filter_codes (possible_codes self) guess (calculate_feedback guess (secret_code self)))"
  by (simp add: play_turn_def Let_def)

theorem solving_turn_skips_filter_witness:
  "calculate_feedback [''Red'', ''Orange'', ''Purple'', ''Blue''] (secret_code example_game)
     = (code_length example_game, 0) \<and>
   play_turn example_game [''Red'', ''Orange'', ''Purple'', ''Blue''] =
     (True, example_game\<lparr>guesses := [[''Red'', ''Orange'', ''Purple'', ''Blue'']], feedbacks := [(4, 0)]\<rparr>) \<and>
   possible_codes (snd (play_turn example_game [''Red'', ''Orange'', ''Purple'', ''Blue'']))
     = possible_codes example_game \<and>
   calculate_feedback [''Red'', ''Red'', ''Green'', ''Green''] (secret_code example_game)
     \<noteq> (code_length example_game, 0) \<and>
   fst (play_turn example_game [''Red'', ''Red'', ''Green'', ''Green'']) = False \<and>
   possible_codes (snd (play_turn example_game [''Red'', ''Red'', ''Green'', ''Green''])) =
     filter_codes (possible_codes example_game) [''Red'', ''Red'', ''Green'', ''Green''] (1, 0)"
proof -
  have s: "secret_code example_game = [''Red'', ''Orange'', ''Purple'', ''Blue'']"
   and l: "code_length example_game = 4"
   and g: "guesses example_game = []" and f: "feedbacks example_game = []"
    by (simp_all add: example_game_def)
  have a: "calculate_feedback [''Red'', ''Orange'', ''Purple'', ''Blue''] [''Red'', ''Orange'', ''Purple'', ''Blue''] = (4, 0)"
    by (simp add: calculate_feedback_def)
  have b: "calculate_feedback [''Red'', ''Red'', ''Green'', ''Green''] [''Red'', ''Orange'', ''Purple'', ''Blue''] = (1, 0)"
    by (simp add: calculate_feedback_def)
  show ?thesis
    using solving_turn_skips_filter[of "[''Red'', ''Orange'', ''Purple'', ''Blue'']" example_game]
          solving_turn_skips_filter[of "[''Red'', ''Red'', ''Green'', ''Green'']" example_game]
    by (simp add: s l g f a b)
qed

text \<open>
  C7, as stated, fails: \<^verbatim>\<open>play_turn\<close> accepts a guess of length 1 in a session of code
  length 4, and the history has changed.
\<close>

theorem invalid_guess_counterexample:
  "\<not> spec_valid_guess example_game [''Red''] \<and>
   guesses example_game = [] \<and> feedbacks example_game = [] \<and>
   fst (play_turn example_game [''Red'']) = False \<and>
   guesses (snd (play_turn example_game [''Red''])) = [[''Red'']] \<and>
   feedbacks (snd (play_turn example_game [''Red''])) = [(1, 0)]"
proof -
  have fb: "calculate_feedback [''Red''] [''Red'', ''Orange'', ''Purple'', ''Blue''] = (1, 0)"
    by (simp add: calculate_feedback_def)
  show ?thesis
    by (simp add: spec_valid_guess_def play_turn_def Let_def example_game_def fb)
qed

text \<open>
  C7, amended: \<^verbatim>\<open>play_turn\<close> validates nothing and raises nothing. Every guess, valid or
  not, is scored against the secret and appended with its feedback to the history, and
  the turn returns whether that feedback is \<open>(code_length, 0)\<close>.
\<close>

theorem play_turn_accepts_every_guess:
  "guesses (snd (play_turn self guess)) = guesses self @ [guess] \<and>
   feedbacks (snd (play_turn self guess)) = feedbacks self @ [calculate_feedback guess (secret_code self)] \<and>
   fst (play_turn self guess) = (calculate_feedback guess (secret_code self) = (code_length self, 0))"
  by (simp add: play_turn_def Let_def)

text \<open>
  C5, as stated, fails: with duplicates disallowed and length 7 the constructor raises
  \<^verbatim>\<open>ValueError\<close>, from \<^verbatim>\<open>random.sample\<close>, not an \<^verbatim>\<open>InvalidConfigurationError\<close>.
\<close>

theorem configuration_error_counterexample:
  "MastermindGame_init first_draws False 7 = Inl ValueError \<and>
   MastermindGame_init first_draws False 7 \<noteq> Inl InvalidConfigurationError"
  by (simp add: init_too_long length_COLORS)

text \<open>
  C5, amended: with duplicates disallowed and a code length greater than the size of the
  alphabet, the construction of a session fails, with the \<^verbatim>\<open>ValueError\<close> of
  \<^verbatim>\<open>random.sample\<close>.
\<close>

theorem construction_fails_beyond_alphabet:
  "\<not> allow_dup \<Longrightarrow> int (length COLORS) < len \<Longrightarrow>
   MastermindGame_init rnd allow_dup len = Inl ValueError"
  by (rule init_too_long)

theorem construction_fails_beyond_alphabet_witness:
  "\<not> False \<and> int (length COLORS) < 7 \<and> MastermindGame_init first_draws False 7 = Inl ValueError"
  using construction_fails_beyond_alphabet[of False 7 first_draws]
  by (simp add: length_COLORS)

text \<open>
  C4: the secret of \<^verbatim>\<open>MastermindGame(True, 4)\<close>. Whatever the random source draws, the
  constructor succeeds with a secret of pairwise distinct symbols, so the code
  (Red, Red, Green, Green) of the code space is never the secret.
\<close>

theorem secret_ignores_duplicate_policy:
  "\<exists>game. MastermindGame_init rnd True 4 = Inr game \<and>
          distinct (secret_code game) \<and>
          secret_code game \<noteq> [''Red'', ''Red'', ''Green'', ''Green''] \<and>
          [''Red'', ''Red'', ''Green'', ''Green''] \<in> set (all_codes game)"
proof -
  obtain game where g: "MastermindGame_init rnd True 4 = Inr game"
    by (simp add: MastermindGame_init_def itertools_product_def random_sample_def length_COLORS)
  have d: "distinct (secret_code game)" using init_invariant[OF g] by simp
  have "all_codes game = product_repeat COLORS 4"
    using init_Inr[OF g] by (auto simp: itertools_product_def)
  then have m: "[''Red'', ''Red'', ''Green'', ''Green''] \<in> set (all_codes game)"
    by (simp add: set_product_repeat COLORS_def)
  have "secret_code game \<noteq> [''Red'', ''Red'', ''Green'', ''Green'']" using d by auto
  then show ?thesis using g d m by blast
qed

section \<open>The minimax guess selector\<close>

lemma count_feedback_map_of:
  "map_of (count_feedback g c d) =
     (map_of d)(calculate_feedback g c \<mapsto>
        (case map_of d (calculate_feedback g c) of None \<Rightarrow> 0 | Some n \<Rightarrow> n) + 1)"
  by (simp add: count_feedback_def Let_def update_conv')

lemma count_feedback_distinct:
  "distinct (map fst d) \<Longrightarrow> distinct (map fst (count_feedback g c d))"
  by (simp add: count_feedback_def Let_def distinct_update)

lemma fold_count_distinct:
  "distinct (map fst d) \<Longrightarrow> distinct (map fst (fold (count_feedback g) cs d))"
  by (induction cs arbitrary: d) (simp_all add: count_feedback_distinct)

lemma fold_count_map_of:
  "map_of (fold (count_feedback g) cs d) fb =
     (if partition_size cs g fb = 0 then map_of d fb
      else Some ((case map_of d fb of None \<Rightarrow> 0 | Some n \<Rightarrow> n) + partition_size cs g fb))"
proof (induction cs arbitrary: d)
  case Nil
  show ?case by (simp add: partition_size_def)
next
  case (Cons c cs)
  have step: "fold (count_feedback g) (c # cs) d = fold (count_feedback g) cs (count_feedback g c d)"
    by simp
  show ?case
  proof (cases "calculate_feedback g c = fb")
    case True
    have p: "partition_size (c # cs) g fb = Suc (partition_size cs g fb)"
      using True by (simp add: partition_size_def)
    have m: "map_of (count_feedback g c d) fb = Some ((case map_of d fb of None \<Rightarrow> 0 | Some n \<Rightarrow> n) + 1)"
      using True by (simp add: count_feedback_map_of)
    show ?thesis unfolding step Cons.IH p m by simp
  next
    case False
    have p: "partition_size (c # cs) g fb = partition_size cs g fb"
      using False by (simp add: partition_size_def)
    have m: "map_of (count_feedback g c d) fb = map_of d fb"
      using False by (simp add: count_feedback_map_of)
    show ?thesis unfolding step Cons.IH p m by simp
  qed
qed

lemma feedback_counts_map_of:
  "map_of (feedback_counts_of g cs) fb =
     (if partition_size cs g fb = 0 then None else Some (partition_size cs g fb))"
  by (simp add: feedback_counts_of_def fold_count_map_of)

lemma partition_size_pos: "partition_size cs g fb \<noteq> 0 \<longleftrightarrow> fb \<in> calculate_feedback g ` set cs"
  by (auto simp: partition_size_def filter_empty_conv)

lemma feedback_counts_values:
  "set (map snd (feedback_counts_of g cs)) = partition_size cs g ` (calculate_feedback g ` set cs)"
proof -
  have d: "distinct (map fst (feedback_counts_of g cs))"
    unfolding feedback_counts_of_def by (rule fold_count_distinct) simp
  have "set (map snd (feedback_counts_of g cs)) = ran (map_of (feedback_counts_of g cs))"
    using ran_distinct[OF d] by simp
  also have "\<dots> = partition_size cs g ` (calculate_feedback g ` set cs)"
  proof (rule set_eqI)
    fix n
    have "n \<in> ran (map_of (feedback_counts_of g cs)) \<longleftrightarrow>
          (\<exists>fb. partition_size cs g fb \<noteq> 0 \<and> n = partition_size cs g fb)"
      by (auto simp: ran_def feedback_counts_map_of)
    also have "\<dots> \<longleftrightarrow> n \<in> partition_size cs g ` (calculate_feedback g ` set cs)"
      using partition_size_pos[of cs g] by blast
    finally show "n \<in> ran (map_of (feedback_counts_of g cs)) \<longleftrightarrow>
                  n \<in> partition_size cs g ` (calculate_feedback g ` set cs)" .
  qed
  finally show ?thesis .
qed

lemma py_max_Max: "xs \<noteq> [] \<Longrightarrow> py_max xs = Inr (Max (set xs))"
proof (cases xs)
  case Nil
  then show "xs \<noteq> [] \<Longrightarrow> py_max xs = Inr (Max (set xs))" by simp
next
  case (Cons x rest)
  have "Max (set (x # rest)) = fold max rest x" by (rule Max.set_eq_fold)
  then show "py_max xs = Inr (Max (set xs))" unfolding Cons by simp
qed

lemma spec_worst_image:
  "spec_worst cs g = Max (partition_size cs g ` (calculate_feedback g ` set cs))"
  by (simp add: spec_worst_def image_image)

lemma max_eliminations_worst:
  assumes "cs \<noteq> []"
  shows "py_max (map snd (feedback_counts_of g cs)) = Inr (spec_worst cs g)"
proof -
  have "set (map snd (feedback_counts_of g cs)) \<noteq> {}"
    unfolding feedback_counts_values using assms by simp
  then have ne: "map snd (feedback_counts_of g cs) \<noteq> []" by auto
  show ?thesis
    unfolding py_max_Max[OF ne] spec_worst_image feedback_counts_values ..
qed

lemma max_eliminations_empty: "py_max (map snd (feedback_counts_of g [])) = Inl ValueError"
  by (simp add: feedback_counts_of_def)

lemma minimax_loop_spec:
  assumes ne: "possible \<noteq> []"
  shows "\<exists>best' mm'. minimax_loop possible universe (best, mm) = Inr (best', mm') \<and>
    ((\<forall>g\<in>set universe. mm \<le> enat (spec_worst possible g)) \<and> best' = best \<and> mm' = mm \<or>
     (\<exists>pre g post. universe = pre @ g # post \<and> best' = Some g \<and> mm' = enat (spec_worst possible g) \<and>
        enat (spec_worst possible g) < mm \<and>
        (\<forall>h\<in>set pre. spec_worst possible g < spec_worst possible h) \<and>
        (\<forall>h\<in>set post. spec_worst possible g \<le> spec_worst possible h)))"
proof (induction universe arbitrary: best mm)
  case Nil
  show ?case by simp
next
  case (Cons x universe)
  let ?W = "spec_worst possible"
  have mx: "py_max (map snd (feedback_counts_of x possible)) = Inr (?W x)"
    using ne by (rule max_eliminations_worst)
  show ?case
  proof (cases "enat (?W x) < mm")
    case True
    have unf: "minimax_loop possible (x # universe) (best, mm) = minimax_loop possible universe (Some x, enat (?W x))"
      using True by (simp add: mx)
    from Cons.IH[of "Some x" "enat (?W x)"] obtain best' mm' where
      r: "minimax_loop possible universe (Some x, enat (?W x)) = Inr (best', mm')" and
      alt: "(\<forall>g\<in>set universe. enat (?W x) \<le> enat (?W g)) \<and> best' = Some x \<and> mm' = enat (?W x) \<or>
       (\<exists>pre g post. universe = pre @ g # post \<and> best' = Some g \<and> mm' = enat (?W g) \<and>
          enat (?W g) < enat (?W x) \<and> (\<forall>h\<in>set pre. ?W g < ?W h) \<and> (\<forall>h\<in>set post. ?W g \<le> ?W h))"
      by blast
    from alt show ?thesis
    proof
      assume a: "(\<forall>g\<in>set universe. enat (?W x) \<le> enat (?W g)) \<and> best' = Some x \<and> mm' = enat (?W x)"
      have "x # universe = [] @ x # universe \<and> best' = Some x \<and> mm' = enat (?W x) \<and> enat (?W x) < mm \<and>
            (\<forall>h\<in>set []. ?W x < ?W h) \<and> (\<forall>h\<in>set universe. ?W x \<le> ?W h)"
        using a True by simp
      then show ?thesis unfolding unf r by blast
    next
      assume "\<exists>pre g post. universe = pre @ g # post \<and> best' = Some g \<and> mm' = enat (?W g) \<and>
          enat (?W g) < enat (?W x) \<and> (\<forall>h\<in>set pre. ?W g < ?W h) \<and> (\<forall>h\<in>set post. ?W g \<le> ?W h)"
      then obtain pre g post where
        b: "universe = pre @ g # post" "best' = Some g" "mm' = enat (?W g)" "enat (?W g) < enat (?W x)"
           "\<forall>h\<in>set pre. ?W g < ?W h" "\<forall>h\<in>set post. ?W g \<le> ?W h"
        by blast
      have lt: "enat (?W g) < mm" using b(4) True by (rule less_trans)
      have "x # universe = (x # pre) @ g # post \<and> best' = Some g \<and> mm' = enat (?W g) \<and> enat (?W g) < mm \<and>
            (\<forall>h\<in>set (x # pre). ?W g < ?W h) \<and> (\<forall>h\<in>set post. ?W g \<le> ?W h)"
        using b lt by simp
      then show ?thesis unfolding unf r by blast
    qed
  next
    case False
    then have ge: "mm \<le> enat (?W x)" by simp
    have unf: "minimax_loop possible (x # universe) (best, mm) = minimax_loop possible universe (best, mm)"
      using False by (simp add: mx)
    from Cons.IH[of best mm] obtain best' mm' where
      r: "minimax_loop possible universe (best, mm) = Inr (best', mm')" and
      alt: "(\<forall>g\<in>set universe. mm \<le> enat (?W g)) \<and> best' = best \<and> mm' = mm \<or>
       (\<exists>pre g post. universe = pre @ g # post \<and> best' = Some g \<and> mm' = enat (?W g) \<and>
          enat (?W g) < mm \<and> (\<forall>h\<in>set pre. ?W g < ?W h) \<and> (\<forall>h\<in>set post. ?W g \<le> ?W h))"
      by blast
    from alt show ?thesis
    proof
      assume a: "(\<forall>g\<in>set universe. mm \<le> enat (?W g)) \<and> best' = best \<and> mm' = mm"
      then have "(\<forall>g\<in>set (x # universe). mm \<le> enat (?W g)) \<and> best' = best \<and> mm' = mm"
        using ge by simp
      then show ?thesis unfolding unf r by blast
    next
      assume "\<exists>pre g post. universe = pre @ g # post \<and> best' = Some g \<and> mm' = enat (?W g) \<and>
          enat (?W g) < mm \<and> (\<forall>h\<in>set pre. ?W g < ?W h) \<and> (\<forall>h\<in>set post. ?W g \<le> ?W h)"
      then obtain pre g post where
        b: "universe = pre @ g # post" "best' = Some g" "mm' = enat (?W g)" "enat (?W g) < mm"
           "\<forall>h\<in>set pre. ?W g < ?W h" "\<forall>h\<in>set post. ?W g \<le> ?W h"
        by blast
      have "enat (?W g) < enat (?W x)" using b(4) ge by (rule less_le_trans)
      then have lt: "?W g < ?W x" by simp
      have "x # universe = (x # pre) @ g # post \<and> best' = Some g \<and> mm' = enat (?W g) \<and> enat (?W g) < mm \<and>
            (\<forall>h\<in>set (x # pre). ?W g < ?W h) \<and> (\<forall>h\<in>set post. ?W g \<le> ?W h)"
        using b lt by simp
      then show ?thesis unfolding unf r by blast
    qed
  qed
qed

lemma minimax_guess_spec:
  assumes "possible_codes self \<noteq> []" and "all_codes self \<noteq> []"
  shows "\<exists>pre g post. all_codes self = pre @ g # post \<and> minimax_guess self = Inr (Some g) \<and>
        (\<forall>h\<in>set pre. spec_worst (possible_codes self) g < spec_worst (possible_codes self) h) \<and>
        (\<forall>h\<in>set post. spec_worst (possible_codes self) g \<le> spec_worst (possible_codes self) h)"
proof -
  let ?W = "spec_worst (possible_codes self)"
  from minimax_loop_spec[OF assms(1), of "all_codes self" None \<infinity>] obtain best' mm' where
    r: "minimax_loop (possible_codes self) (all_codes self) (None, \<infinity>) = Inr (best', mm')" and
    alt: "(\<forall>g\<in>set (all_codes self). \<infinity> \<le> enat (?W g)) \<and> best' = None \<and> mm' = \<infinity> \<or>
       (\<exists>pre g post. all_codes self = pre @ g # post \<and> best' = Some g \<and> mm' = enat (?W g) \<and>
          enat (?W g) < \<infinity> \<and> (\<forall>h\<in>set pre. ?W g < ?W h) \<and> (\<forall>h\<in>set post. ?W g \<le> ?W h))"
    by blast
  obtain x where "x \<in> set (all_codes self)" using assms(2) by (cases "all_codes self") auto
  then have "\<not> (\<forall>g\<in>set (all_codes self). \<infinity> \<le> enat (?W g))" by auto
  with alt obtain pre g post where
    b: "all_codes self = pre @ g # post" "best' = Some g"
       "\<forall>h\<in>set pre. ?W g < ?W h" "\<forall>h\<in>set post. ?W g \<le> ?W h"
    by blast
  have "minimax_guess self = Inr (Some g)" by (simp add: minimax_guess_def r b(2))
  then show ?thesis using b by blast
qed

lemma minimax_guess_no_candidates:
  assumes "possible_codes self = []" and "all_codes self \<noteq> []"
  shows "minimax_guess self = Inl ValueError"
proof -
  obtain x rest where u: "all_codes self = x # rest" using assms(2) by (cases "all_codes self") auto
  show ?thesis by (simp add: minimax_guess_def u assms(1) max_eliminations_empty)
qed

lemma product_repeat_nonempty: "xs \<noteq> [] \<Longrightarrow> product_repeat xs n \<noteq> []"
proof (induction n)
  case 0
  show ?case by simp
next
  case (Suc n)
  then obtain x rest where "xs = x # rest" by (cases xs) auto
  then show ?case using Suc by simp
qed

text \<open>
  Every session that the constructor builds and that \<^verbatim>\<open>play_turn\<close> advances has a candidate
  and a universe, so the selector's search is defined there.
\<close>

lemma play_turns_all_codes [simp]: "all_codes (play_turns self gs) = all_codes self"
  by (induction gs arbitrary: self) simp_all

lemma constructed_session_nonempty:
  assumes "MastermindGame_init rnd allow_dup len = Inr game"
  shows "possible_codes (play_turns game gs) \<noteq> [] \<and> all_codes (play_turns game gs) \<noteq> []"
proof -
  have i: "secret_code game \<in> set (possible_codes game)" and e: "possible_codes game = all_codes game"
    using init_invariant[OF assms] by blast+
  have "secret_code game \<in> set (possible_codes (play_turns game gs))"
    using i by (rule play_turns_retains)
  moreover have "secret_code game \<in> set (all_codes game)" using i e by simp
  ultimately show ?thesis by auto
qed

text \<open>
  C1: the guess selector. With exactly one candidate left, \<^verbatim>\<open>next_guess\<close> returns that
  candidate. Otherwise (in a session that has candidates and a universe) it returns a guess
  \<open>g\<close> of the universe \<open>all_codes\<close>, where \<open>spec_worst\<close> is the size of the largest part of the
  candidates partitioned by their score against the guess: every guess enumerated before
  \<open>g\<close> has a strictly larger \<open>spec_worst\<close>, and no guess enumerated after it has a smaller
  one. So \<open>g\<close> minimises \<open>spec_worst\<close> over the whole universe, and is the first to do so.
\<close>

theorem next_guess_minimax:
  "(possible_codes self = [c] \<longrightarrow> next_guess self = Inr (Some c)) \<and>
   (length (possible_codes self) \<noteq> 1 \<and> possible_codes self \<noteq> [] \<and> all_codes self \<noteq> [] \<longrightarrow>
      (\<exists>pre g post. all_codes self = pre @ g # post \<and> next_guess self = Inr (Some g) \<and>
         (\<forall>h\<in>set pre. spec_worst (possible_codes self) g < spec_worst (possible_codes self) h) \<and>
         (\<forall>h\<in>set post. spec_worst (possible_codes self) g \<le> spec_worst (possible_codes self) h)))"
proof
  show "possible_codes self = [c] \<longrightarrow> next_guess self = Inr (Some c)"
    by (simp add: next_guess_def)
next
  show "length (possible_codes self) \<noteq> 1 \<and> possible_codes self \<noteq> [] \<and> all_codes self \<noteq> [] \<longrightarrow>
      (\<exists>pre g post. all_codes self = pre @ g # post \<and> next_guess self = Inr (Some g) \<and>
         (\<forall>h\<in>set pre. spec_worst (possible_codes self) g < spec_worst (possible_codes self) h) \<and>
         (\<forall>h\<in>set post. spec_worst (possible_codes self) g \<le> spec_worst (possible_codes self) h))"
  proof
    assume a: "length (possible_codes self) \<noteq> 1 \<and> possible_codes self \<noteq> [] \<and> all_codes self \<noteq> []"
    then have n: "next_guess self = minimax_guess self" by (simp add: next_guess_def)
    from a have "possible_codes self \<noteq> []" and "all_codes self \<noteq> []" by simp_all
    then show "\<exists>pre g post. all_codes self = pre @ g # post \<and> next_guess self = Inr (Some g) \<and>
         (\<forall>h\<in>set pre. spec_worst (possible_codes self) g < spec_worst (possible_codes self) h) \<and>
         (\<forall>h\<in>set post. spec_worst (possible_codes self) g \<le> spec_worst (possible_codes self) h)"
      unfolding n by (rule minimax_guess_spec)
  qed
qed

theorem next_guess_minimax_witness:
  "possible_codes one_left = [[''Red'', ''Orange'', ''Purple'', ''Blue'']] \<and>
   next_guess one_left = Inr (Some [''Red'', ''Orange'', ''Purple'', ''Blue'']) \<and>
   length (possible_codes two_left) \<noteq> 1 \<and> possible_codes two_left \<noteq> [] \<and> all_codes two_left \<noteq> [] \<and>
   (\<exists>pre g post. all_codes two_left = pre @ g # post \<and> next_guess two_left = Inr (Some g) \<and>
      (\<forall>h\<in>set pre. spec_worst (possible_codes two_left) g < spec_worst (possible_codes two_left) h) \<and>
      (\<forall>h\<in>set post. spec_worst (possible_codes two_left) g \<le> spec_worst (possible_codes two_left) h))"
proof -
  have p1: "possible_codes one_left = [[''Red'', ''Orange'', ''Purple'', ''Blue'']]"
    by (simp add: one_left_def)
  have p2: "possible_codes two_left =
              [[''Red'', ''Orange'', ''Purple'', ''Blue''], [''Red'', ''Orange'', ''Blue'', ''Purple'']]"
    by (simp add: two_left_def)
  have "COLORS \<noteq> []" by (simp add: COLORS_def)
  then have "product_repeat COLORS 4 \<noteq> []" by (rule product_repeat_nonempty)
  then have u: "all_codes two_left \<noteq> []" by (simp add: two_left_def example_game_def)
  show ?thesis
    using next_guess_minimax[of one_left "[''Red'', ''Orange'', ''Purple'', ''Blue'']"]
          next_guess_minimax[of two_left] u
    by (simp add: p1 p2)
qed

end
